theory Spec2Isabelle
  imports
    Main
    "HOL-Library.Word"
    "HOL-Library.Char_ord"
    "HOL-Library.List_Lexorder"
    "HOL-Library.Product_Lexorder"
    "HOL-Library.Multiset"
begin

unbundle bit_operations_syntax

section \<open>Duplicate file finder: the embedding\<close>

text \<open>
  The program is \<^verbatim>\<open>find_duplicates_e_drive.py\<close>. Paths are Python strings, file
  contents are byte strings. A Python string is modelled as a \<^typ>\<open>string\<close>: its length
  and its lexicographic order are those of the list of characters.
\<close>

type_synonym path = string
type_synonym bytes = "8 word list"

subsection \<open>The file system and hashlib, as the fingerprinter sees them\<close>

text \<open>
  \<^verbatim>\<open>hashlib.md5\<close> and \<^verbatim>\<open>hashlib.sha256\<close> are library functions: the raw digests (128 and
  256 bits) are parameters. A hash object is the bytes fed to it so far (\<^verbatim>\<open>update\<close>
  appends), and \<^verbatim>\<open>hexdigest\<close> prints the digest of these bytes as lowercase hexadecimal
  digits, four bits each, most significant first.

  \<open>content e p\<close> is what opening and reading \<open>p\<close> gives during the run: \<open>None\<close> when
  \<^verbatim>\<open>open\<close> or \<^verbatim>\<open>read\<close> raises \<^verbatim>\<open>OSError\<close> (\<^verbatim>\<open>PermissionError\<close> is a subclass), the
  bytes of the file otherwise. One run of \<^verbatim>\<open>find_duplicates\<close> sees one state of the
  files: a path that is read twice gives the same bytes twice. Log lines are left out.
\<close>

record env =
  md5 :: "bytes \<Rightarrow> 128 word"
  sha256 :: "bytes \<Rightarrow> 256 word"
  content :: "path \<Rightarrow> bytes option"

definition hexchar :: "nat \<Rightarrow> char" where
  "hexchar n = ''0123456789abcdef'' ! n"

definition hexdigest :: "'a::len word \<Rightarrow> string" where
  "hexdigest d =
     map (\<lambda>i. hexchar (unat (drop_bit (4 * i) d AND 15))) (rev [0..<LENGTH('a) div 4])"

text \<open>
  \<^verbatim>\<open>partial_hash(path, chunk_size=8192)\<close>: one \<^verbatim>\<open>f.read(chunk_size)\<close>, which returns at
  most \<open>chunk_size\<close> bytes from the start of the file; \<^verbatim>\<open>""\<close> when the file cannot be
  opened or read.
\<close>

definition partial_hash :: "env \<Rightarrow> path \<Rightarrow> nat \<Rightarrow> string" where
  "partial_hash e p chunk_size =
     (case content e p of
        None \<Rightarrow> ''''
      | Some data \<Rightarrow> hexdigest (md5 e ([] @ take chunk_size data)))"

text \<open>
  The loop \<^verbatim>\<open>while chunk := f.read(chunk_size): h.update(chunk)\<close> of \<^verbatim>\<open>full_hash\<close>:
  \<open>h\<close> is the hash object (the bytes fed so far), \<open>rest\<close> the unread part of the file.
  The loop ends at the first empty chunk.
\<close>

function read_chunks :: "nat \<Rightarrow> bytes \<Rightarrow> bytes \<Rightarrow> bytes" where
  "read_chunks chunk_size h rest =
     (let chunk = take chunk_size rest in
      if chunk = [] then h
      else read_chunks chunk_size (h @ chunk) (drop chunk_size rest))"
  by pat_completeness auto
termination
  by (relation "measure (\<lambda>(chunk_size, h, rest). length rest)") auto

declare read_chunks.simps [simp del]

definition full_hash :: "env \<Rightarrow> path \<Rightarrow> nat \<Rightarrow> string" where
  "full_hash e p chunk_size =
     (case content e p of
        None \<Rightarrow> ''''
      | Some data \<Rightarrow> hexdigest (sha256 e (read_chunks chunk_size [] data)))"

subsection \<open>The duplicate resolver\<close>

text \<open>
  A \<^verbatim>\<open>defaultdict(list)\<close> keeps its keys in insertion order: it is an association list,
  and \<^verbatim>\<open>d[k].append(v)\<close> appends to the list of \<open>k\<close>, adding the key at the end when it
  is new.
\<close>

fun dd_append :: "('k \<times> 'v list) list \<Rightarrow> 'k \<Rightarrow> 'v \<Rightarrow> ('k \<times> 'v list) list" where
  "dd_append [] k v = [(k, [v])]"
| "dd_append ((k', vs) # d) k v =
     (if k' = k then (k', vs @ [v]) # d else (k', vs) # dd_append d k v)"

text \<open>Pass 2, lines 104 to 107: the loop over the paths of one size bucket.\<close>

fun partial_pass ::
  "env \<Rightarrow> path list \<Rightarrow> (string \<times> path list) list \<Rightarrow> (string \<times> path list) list" where
  "partial_pass e [] partial_map = partial_map"
| "partial_pass e (p # paths) partial_map =
     (let ph = partial_hash e p 8192 in
      partial_pass e paths (if ph \<noteq> [] then dd_append partial_map ph p else partial_map))"

text \<open>
  Pass 3, lines 114 to 117: the loop over one partial-hash bucket. \<open>reads\<close> is not a
  variable of the program: it records, in order, every path \<^verbatim>\<open>full_hash\<close> is called on.
\<close>

fun full_pass ::
  "env \<Rightarrow> path list \<Rightarrow> (string \<times> path list) list \<Rightarrow> path list \<Rightarrow>
   (string \<times> path list) list \<times> path list" where
  "full_pass e [] full_map reads = (full_map, reads)"
| "full_pass e (p # plist) full_map reads =
     (let fh = full_hash e p 65536 in
      full_pass e plist (if fh \<noteq> [] then dd_append full_map fh p else full_map)
        (reads @ [p]))"

text \<open>Lines 110 to 120: the loop over \<^verbatim>\<open>partial_map.items()\<close>.\<close>

fun collisions_loop ::
  "env \<Rightarrow> (string \<times> path list) list \<Rightarrow> path list list \<Rightarrow> path list \<Rightarrow>
   path list list \<times> path list" where
  "collisions_loop e [] duplicate_groups reads = (duplicate_groups, reads)"
| "collisions_loop e ((ph, plist) # rest) duplicate_groups reads =
     (if length plist < 2 then collisions_loop e rest duplicate_groups reads
      else
        (case full_pass e plist [] reads of
           (full_map, reads') \<Rightarrow>
             collisions_loop e rest
               (duplicate_groups @ filter (\<lambda>flist. length flist \<ge> 2) (map snd full_map))
               reads'))"

text \<open>Lines 101 to 120: the loop over \<^verbatim>\<open>candidates.items()\<close>.\<close>

fun candidates_loop ::
  "env \<Rightarrow> (int \<times> path list) list \<Rightarrow> path list list \<Rightarrow> path list \<Rightarrow>
   path list list \<times> path list" where
  "candidates_loop e [] duplicate_groups reads = (duplicate_groups, reads)"
| "candidates_loop e ((sz, paths) # rest) duplicate_groups reads =
     (case collisions_loop e (partial_pass e paths []) duplicate_groups reads of
        (duplicate_groups', reads') \<Rightarrow> candidates_loop e rest duplicate_groups' reads')"

text \<open>
  \<^verbatim>\<open>find_duplicates(size_map)\<close>. The size map is a dict from size to the list of paths
  of that size, in insertion order. \<open>find_duplicates_run\<close> returns the groups together
  with the record of the calls of \<^verbatim>\<open>full_hash\<close>; \<open>find_duplicates\<close> is the value the
  program returns.
\<close>

definition find_duplicates_run ::
  "env \<Rightarrow> (int \<times> path list) list \<Rightarrow> path list list \<times> path list" where
  "find_duplicates_run e size_map =
     (let candidates = filter (\<lambda>(sz, paths). length paths > 1) size_map
      in candidates_loop e candidates [] [])"

definition find_duplicates :: "env \<Rightarrow> (int \<times> path list) list \<Rightarrow> path list list" where
  "find_duplicates e size_map = fst (find_duplicates_run e size_map)"

definition full_hash_calls :: "env \<Rightarrow> (int \<times> path list) list \<Rightarrow> path list" where
  "full_hash_calls e size_map = snd (find_duplicates_run e size_map)"

text \<open>The fingerprints as \<^verbatim>\<open>find_duplicates\<close> calls them, with the default chunk sizes.\<close>

abbreviation PH :: "env \<Rightarrow> path \<Rightarrow> string" where
  "PH e p \<equiv> partial_hash e p 8192"

abbreviation FH :: "env \<Rightarrow> path \<Rightarrow> string" where
  "FH e p \<equiv> full_hash e p 65536"

subsection \<open>Auxiliary functions of the proofs\<close>

text \<open>
  Both hashing loops have the same shape: hash the path, and when the hash is not the
  empty string append the path to the list of that hash. \<open>group_by_hash\<close> is this loop
  for any hash function; \<open>bucket_of\<close> reads a dict with the default \<open>[]\<close>. The other
  three are what one partial-hash bucket and one size bucket contribute to the result.
\<close>

fun group_by_hash :: "('a \<Rightarrow> string) \<Rightarrow> 'a list \<Rightarrow> (string \<times> 'a list) list \<Rightarrow> (string \<times> 'a list) list" where
  "group_by_hash key [] d = d"
| "group_by_hash key (p # ps) d =
     group_by_hash key ps (if key p \<noteq> [] then dd_append d (key p) p else d)"

definition bucket_of :: "('k \<times> 'v list) list \<Rightarrow> 'k \<Rightarrow> 'v list" where
  "bucket_of d k = (case map_of d k of None \<Rightarrow> [] | Some vs \<Rightarrow> vs)"

definition emitted :: "env \<Rightarrow> path list \<Rightarrow> path list list" where
  "emitted e plist = filter (\<lambda>flist. length flist \<ge> 2) (map snd (group_by_hash (FH e) plist []))"

definition bucket_groups :: "env \<Rightarrow> path list \<Rightarrow> path list list" where
  "bucket_groups e paths =
     concat (map (\<lambda>(ph, plist). if length plist < 2 then [] else emitted e plist)
       (group_by_hash (PH e) paths []))"

definition bucket_reads :: "env \<Rightarrow> path list \<Rightarrow> path list" where
  "bucket_reads e paths =
     concat (map (\<lambda>(ph, plist). if length plist < 2 then [] else plist)
       (group_by_hash (PH e) paths []))"

subsection \<open>A small file system for the examples\<close>

text \<open>
  Three readable files of the same one-byte content and two readable empty files; every
  other path cannot be opened.
  The digests are stand-ins (the length of the input).
\<close>

definition demo_env :: env where
  "demo_env = \<lparr>md5 = (\<lambda>bs. of_nat (length bs)), sha256 = (\<lambda>bs. of_nat (length bs)),
     content = map_of [(''a'', [1]), (''b'', [1]), (''cc'', [1]), (''e1'', []), (''e2'', [])]\<rparr>"

subsection \<open>Conditions on the size map\<close>

text \<open>
  ``Each file path occurs in at most one bucket'': two different entries of the size map
  have no path in common. Nothing is said about a path listed twice in one bucket.
\<close>

definition one_bucket_per_path :: "(int \<times> path list) list \<Rightarrow> bool" where
  "one_bucket_per_path size_map =
     (\<forall>i < length size_map. \<forall>j < length size_map.
        set (snd (size_map ! i)) \<inter> set (snd (size_map ! j)) \<noteq> {} \<longrightarrow> i = j)"

subsection \<open>The keeper selector\<close>

text \<open>
  The exceptions of the program that matter below: \<^verbatim>\<open>IndexError\<close> (an index out of
  range), \<^verbatim>\<open>ValueError\<close> and \<^verbatim>\<open>OSError\<close> with its message.
\<close>

datatype exn = IndexError | ValueError | OSError string

text \<open>
  \<^verbatim>\<open>pick_keeper(group)\<close>: \<^verbatim>\<open>sorted\<close> is a stable sort on the key \<^verbatim>\<open>(len(p), p)\<close>; tuples
  compare lexicographically and strings compare character by character. On the empty
  list \<^verbatim>\<open>group_sorted[0]\<close> raises \<^verbatim>\<open>IndexError\<close>.
\<close>

definition pick_keeper :: "path list \<Rightarrow> exn + path \<times> path list" where
  "pick_keeper grp =
     (let group_sorted = sort_key (\<lambda>p. (length p, p)) grp in
      case group_sorted of
        [] \<Rightarrow> Inl IndexError
      | keeper # movers \<Rightarrow> Inr (keeper, movers))"

subsection \<open>The relocation planner\<close>

text \<open>
  The report written by \<^verbatim>\<open>move_duplicates\<close> is a CSV file: a header line, then one row
  per \<^verbatim>\<open>writer.writerow\<close> call with the columns group, action, original path,
  destination and size. The action column holds one of four strings.
\<close>

datatype action = KEEP | WOULD_MOVE | MOVED | ERROR

record row =
  row_group :: nat
  row_action :: action
  original_path :: path
  destination :: string
  size_bytes :: int

text \<open>
  What \<^verbatim>\<open>move_duplicates\<close> calls outside the program. The file system is a state of
  any type \<open>'s\<close>; a call that can raise \<^verbatim>\<open>OSError\<close> returns the message of the error
  (\<open>Some msg\<close>, or \<open>Inl msg\<close>) and the next state. \<^verbatim>\<open>shutil.Error\<close> and
  \<^verbatim>\<open>PermissionError\<close> are subclasses of \<^verbatim>\<open>OSError\<close>. \<^verbatim>\<open>os.path.relpath\<close> may raise
  \<^verbatim>\<open>ValueError\<close>; \<^verbatim>\<open>os.path.join\<close> and \<^verbatim>\<open>os.path.dirname\<close> are functions of
  their string arguments (the working directory does not change during a run).
  \<open>now_strftime\<close> is \<^verbatim>\<open>datetime.now().strftime("%Y%m%d_%H%M%S")\<close>.
\<close>

record 's os =
  os_makedirs :: "'s \<Rightarrow> path \<Rightarrow> string option \<times> 's"
  os_path_getsize :: "'s \<Rightarrow> path \<Rightarrow> string + int"
  shutil_move :: "'s \<Rightarrow> path \<Rightarrow> path \<Rightarrow> string option \<times> 's"
  open_w :: "'s \<Rightarrow> path \<Rightarrow> string option \<times> 's"
  now_strftime :: "'s \<Rightarrow> string"
  os_path_relpath :: "path \<Rightarrow> path \<Rightarrow> exn + path"
  os_path_join :: "path \<Rightarrow> path \<Rightarrow> path"
  os_path_dirname :: "path \<Rightarrow> path"

text \<open>
  The state of one run: the file system, the report (its header, empty until it is
  written, and its rows), and the counters \<^verbatim>\<open>moved\<close> and \<^verbatim>\<open>freed_bytes\<close>. \<open>planned\<close>
  is not a variable of the program: it records each pair \<^verbatim>\<open>(src, dst)\<close> computed at
  lines 158 and 159.
\<close>

record 's run =
  fs :: 's
  header :: "string list"
  rows :: "row list"
  moved :: nat
  freed_bytes :: int
  planned :: "(path \<times> path) list"

text \<open>
  The string literal \<^verbatim>\<open>"C:\\"\<close> of line 158 (three characters), the report path of
  line 140 (\<^verbatim>\<open>REPORT_CSV\<close> with \<^verbatim>\<open>.csv\<close> replaced by the timestamp suffix) and the
  header row of line 144.
\<close>

definition C_ROOT :: path where
  "C_ROOT = ''C:'' @ [CHR 0x5C]"

definition report_path_of :: "string \<Rightarrow> path" where
  "report_path_of timestamp =
     ''L:'' @ [CHR 0x5C] @ ''find_duplicates'' @ [CHR 0x5C] @ ''duplicate_report'' @
     ''_'' @ timestamp @ ''.csv''"

definition report_header :: "string list" where
  "report_header = [''group'', ''action'', ''original_path'', ''destination'', ''size_bytes'']"

definition writerow :: "'s run \<Rightarrow> row \<Rightarrow> 's run" where
  "writerow st r = st\<lparr>rows := rows st @ [r]\<rparr>"

text \<open>
  Lines 157 to 173: the body of the loop over the movers. \<^verbatim>\<open>relpath\<close> is called outside
  the \<^verbatim>\<open>try\<close> block, so its exception leaves the loop (\<open>Inl\<close>); an \<^verbatim>\<open>OSError\<close> of
  \<^verbatim>\<open>makedirs\<close> or \<^verbatim>\<open>shutil.move\<close> is caught and written as an \<^verbatim>\<open>ERROR\<close> row whose
  destination column holds the message. Writing a row to the open report is taken to
  succeed, and log lines are left out.
\<close>

definition mover_step ::
  "'s os \<Rightarrow> path \<Rightarrow> bool \<Rightarrow> nat \<Rightarrow> int \<Rightarrow> path \<Rightarrow> 's run \<Rightarrow> exn + 's run" where
  "mover_step os dest_root dry_run gid file_size src st =
     (case os_path_relpath os src C_ROOT of
        Inl e \<Rightarrow> Inl e
      | Inr rel \<Rightarrow>
          (let dst = os_path_join os dest_root rel;
               st = st\<lparr>planned := planned st @ [(src, dst)]\<rparr>
           in
             if dry_run then
               Inr (writerow st
                 \<lparr>row_group = gid, row_action = WOULD_MOVE, original_path = src,
                  destination = dst, size_bytes = file_size\<rparr>)
             else
               (case os_makedirs os (fs st) (os_path_dirname os dst) of
                  (Some msg, s1) \<Rightarrow>
                    Inr (writerow (st\<lparr>fs := s1\<rparr>)
                      \<lparr>row_group = gid, row_action = ERROR, original_path = src,
                       destination = msg, size_bytes = file_size\<rparr>)
                | (None, s1) \<Rightarrow>
                    (case shutil_move os s1 src dst of
                       (Some msg, s2) \<Rightarrow>
                         Inr (writerow (st\<lparr>fs := s2\<rparr>)
                           \<lparr>row_group = gid, row_action = ERROR, original_path = src,
                            destination = msg, size_bytes = file_size\<rparr>)
                     | (None, s2) \<Rightarrow>
                         Inr ((writerow (st\<lparr>fs := s2\<rparr>)
                                \<lparr>row_group = gid, row_action = MOVED, original_path = src,
                                 destination = dst, size_bytes = file_size\<rparr>)
                              \<lparr>moved := moved st + 1,
                               freed_bytes := freed_bytes st + file_size\<rparr>)))))"

fun movers_loop ::
  "'s os \<Rightarrow> path \<Rightarrow> bool \<Rightarrow> nat \<Rightarrow> int \<Rightarrow> path list \<Rightarrow> 's run \<Rightarrow> exn option \<times> 's run" where
  "movers_loop os dest_root dry_run gid file_size [] st = (None, st)"
| "movers_loop os dest_root dry_run gid file_size (src # movers) st =
     (case mover_step os dest_root dry_run gid file_size src st of
        Inl e \<Rightarrow> (Some e, st)
      | Inr st' \<Rightarrow> movers_loop os dest_root dry_run gid file_size movers st')"

text \<open>
  Lines 146 to 173: the loop over \<^verbatim>\<open>enumerate(duplicate_groups, 1)\<close>. A group whose
  keeper cannot be stat'ed is skipped by \<^verbatim>\<open>continue\<close>; the group number still advances.
\<close>

fun groups_loop ::
  "'s os \<Rightarrow> path \<Rightarrow> bool \<Rightarrow> nat \<Rightarrow> path list list \<Rightarrow> 's run \<Rightarrow> exn option \<times> 's run" where
  "groups_loop os dest_root dry_run gid [] st = (None, st)"
| "groups_loop os dest_root dry_run gid (grp # duplicate_groups) st =
     (case pick_keeper grp of
        Inl e \<Rightarrow> (Some e, st)
      | Inr (keeper, movers) \<Rightarrow>
          (case os_path_getsize os (fs st) keeper of
             Inl msg \<Rightarrow> groups_loop os dest_root dry_run (Suc gid) duplicate_groups st
           | Inr file_size \<Rightarrow>
               (case movers_loop os dest_root dry_run gid file_size movers
                       (writerow st \<lparr>row_group = gid, row_action = KEEP, original_path = keeper,
                          destination = [], size_bytes = file_size\<rparr>) of
                  (Some e, st') \<Rightarrow> (Some e, st')
                | (None, st') \<Rightarrow> groups_loop os dest_root dry_run (Suc gid) duplicate_groups st')))"

text \<open>
  \<^verbatim>\<open>move_duplicates(duplicate_groups, dest_root, dry_run)\<close>: the result is the exception
  that ends the run (\<open>Inl\<close>) or the report path returned (\<open>Inr\<close>), with the final state.
  \<^verbatim>\<open>os.makedirs(dest_root)\<close> and \<^verbatim>\<open>open(report_path, "w")\<close> are outside any \<^verbatim>\<open>try\<close>.
\<close>

definition move_duplicates ::
  "'s os \<Rightarrow> 's \<Rightarrow> path list list \<Rightarrow> path \<Rightarrow> bool \<Rightarrow> (exn + path) \<times> 's run" where
  "move_duplicates os s duplicate_groups dest_root dry_run =
     (case os_makedirs os s dest_root of
        (Some msg, s1) \<Rightarrow>
          (Inl (OSError msg),
           \<lparr>fs = s1, header = [], rows = [], moved = 0, freed_bytes = 0, planned = []\<rparr>)
      | (None, s1) \<Rightarrow>
          (let report_path = report_path_of (now_strftime os s1) in
           case open_w os s1 report_path of
             (Some msg, s2) \<Rightarrow>
               (Inl (OSError msg),
                \<lparr>fs = s2, header = [], rows = [], moved = 0, freed_bytes = 0, planned = []\<rparr>)
           | (None, s2) \<Rightarrow>
               (case groups_loop os dest_root dry_run 1 duplicate_groups
                       \<lparr>fs = s2, header = report_header, rows = [], moved = 0,
                        freed_bytes = 0, planned = []\<rparr> of
                  (Some e, st) \<Rightarrow> (Inl e, st)
                | (None, st) \<Rightarrow> (Inr report_path, st))))"

subsection \<open>An operating system for the examples\<close>

text \<open>
  The path functions of the examples follow \<^verbatim>\<open>ntpath\<close>, which is \<^verbatim>\<open>os.path\<close> on
  Windows, on the paths the examples use: absolute paths \<^verbatim>\<open>X:\a\b\<close> in normal form with
  the separator \<^verbatim>\<open>\\<close>. \<open>win\<close> writes such a path from its components.

  \<^item> \<open>win_relpath p start\<close>, for \<open>start\<close> a drive root \<^verbatim>\<open>X:\\<close>: \<^verbatim>\<open>ValueError\<close> for an
    empty path and for a path on another drive (the drive letters are compared without
    regard to case); otherwise the path without the root, \<^verbatim>\<open>.\<close> for the root itself.
  \<^item> \<open>win_join a b\<close>, for \<open>b\<close> a relative path without a drive: \<open>a\<close> and \<open>b\<close>, with \<^verbatim>\<open>\\<close>
    between them unless \<open>a\<close> is empty or ends with a separator or a colon.
  \<^item> \<open>win_dirname p\<close>: the path up to its last separator, without trailing separators
    other than the one of the root.

  The state of \<open>demo_os\<close> is the list of the files that exist. Every directory can be
  created and the report can be opened; a file that exists has size 1; moving a file that
  does not exist fails, moving \<^verbatim>\<open>C:\locked.txt\<close> fails, any other move replaces the source
  by the destination.
\<close>

definition is_sep :: "char \<Rightarrow> bool" where
  "is_sep c \<longleftrightarrow> c = CHR 0x5C \<or> c = CHR ''/''"

definition lower_ascii :: "char \<Rightarrow> char" where
  "lower_ascii c =
     (case map_of (zip ''ABCDEFGHIJKLMNOPQRSTUVWXYZ'' ''abcdefghijklmnopqrstuvwxyz'') c of
        None \<Rightarrow> c
      | Some l \<Rightarrow> l)"

definition drive :: "path \<Rightarrow> string" where
  "drive p = (if 2 \<le> length p \<and> p ! 1 = CHR '':'' then take 2 p else [])"

definition win_relpath :: "path \<Rightarrow> path \<Rightarrow> exn + path" where
  "win_relpath p start =
     (if p = [] then Inl ValueError
      else if map lower_ascii (drive p) \<noteq> map lower_ascii (drive start) then Inl ValueError
      else (let rest = drop (length start) p in Inr (if rest = [] then ''.'' else rest)))"

definition win_join :: "path \<Rightarrow> path \<Rightarrow> path" where
  "win_join a b =
     (if a = [] then b
      else if is_sep (last a) \<or> last a = CHR '':'' then a @ b
      else a @ [CHR 0x5C] @ b)"

definition win_dirname :: "path \<Rightarrow> path" where
  "win_dirname p =
     (let d = drive p;
          after = drop (length d) p;
          root = takeWhile is_sep (take 1 after);
          rest = drop (length root) after;
          head = rev (dropWhile (\<lambda>c. \<not> is_sep c) (rev rest))
      in d @ root @ rev (dropWhile is_sep (rev head)))"

fun win :: "string list \<Rightarrow> path" where
  "win [] = []"
| "win [x] = x"
| "win (x # y # zs) = x @ [CHR 0x5C] @ win (y # zs)"

definition demo_os :: "path list os" where
  "demo_os = \<lparr>
     os_makedirs = (\<lambda>s p. (None, s)),
     os_path_getsize = (\<lambda>s p. if p \<in> set s then Inr 1 else Inl ''No such file''),
     shutil_move = (\<lambda>s src dst.
        if src \<notin> set s then (Some ''No such file'', s)
        else if src = win [''C:'', ''locked.txt''] then (Some ''Access denied'', s)
        else (None, dst # removeAll src s)),
     open_w = (\<lambda>s p. (None, s)),
     now_strftime = (\<lambda>s. ''20240101_000000''),
     os_path_relpath = win_relpath,
     os_path_join = win_join,
     os_path_dirname = win_dirname\<rparr>"






subsection \<open>Notions used in the statements about the plan\<close>

text \<open>
  \<open>keep_row\<close> is the row written for a keeper, \<open>loop_start\<close> the state in which the loop
  over the groups starts, \<open>rows_of_group gid st\<close> the rows of the plan carrying the group
  number \<open>gid\<close>, in the order written. \<open>mover_row_of\<close> describes the row written for one
  mover. \<open>demo_dry\<close> and \<open>demo_live\<close> are the final states of the dry and the live run on
  \<open>demo_groups\<close>.
\<close>

definition keep_row :: "nat \<Rightarrow> path \<Rightarrow> int \<Rightarrow> row" where
  "keep_row gid keeper file_size =
     \<lparr>row_group = gid, row_action = KEEP, original_path = keeper, destination = [],
      size_bytes = file_size\<rparr>"






section \<open>Verified properties\<close>

subsection \<open>The loops as list functions\<close>

lemma partial_pass_eq: "partial_pass e ps d = group_by_hash (PH e) ps d"
  by (induction ps arbitrary: d) (simp_all add: Let_def)

lemma full_pass_eq: "full_pass e ps d r = (group_by_hash (FH e) ps d, r @ ps)"
  by (induction ps arbitrary: d r) (simp_all add: Let_def)

lemma collisions_loop_eq:
  "collisions_loop e pm gs r =
     (gs @ concat (map (\<lambda>(ph, plist). if length plist < 2 then [] else emitted e plist) pm),
      r @ concat (map (\<lambda>(ph, plist). if length plist < 2 then [] else plist) pm))"
  by (induction pm arbitrary: gs r) (auto simp: full_pass_eq emitted_def)

lemma candidates_loop_eq:
  "candidates_loop e cs gs r =
     (gs @ concat (map (\<lambda>(sz, paths). bucket_groups e paths) cs),
      r @ concat (map (\<lambda>(sz, paths). bucket_reads e paths) cs))"
  by (induction cs arbitrary: gs r)
     (auto simp: collisions_loop_eq partial_pass_eq bucket_groups_def bucket_reads_def)

lemma find_duplicates_eq:
  "find_duplicates e sm =
     concat (map (\<lambda>(sz, paths). bucket_groups e paths) (filter (\<lambda>(sz, paths). length paths > 1) sm))"
  by (simp add: find_duplicates_def find_duplicates_run_def candidates_loop_eq Let_def)

lemma full_hash_calls_eq:
  "full_hash_calls e sm =
     concat (map (\<lambda>(sz, paths). bucket_reads e paths) (filter (\<lambda>(sz, paths). length paths > 1) sm))"
  by (simp add: full_hash_calls_def find_duplicates_run_def candidates_loop_eq Let_def)

lemma map_of_dd_append:
  "map_of (dd_append d k v) = (map_of d)(k \<mapsto> bucket_of d k @ [v])"
  by (induction d k v rule: dd_append.induct) (auto simp: bucket_of_def fun_eq_iff)

lemma keys_dd_append:
  "map fst (dd_append d k v) = (if k \<in> fst ` set d then map fst d else map fst d @ [k])"
  by (induction d k v rule: dd_append.induct) (auto simp: image_iff)

lemma mset_dd_append:
  "mset (concat (map snd (dd_append d k v))) = mset (concat (map snd d)) + {#v#}"
  by (induction d k v rule: dd_append.induct) auto

lemma distinct_keys_group_by_hash:
  "distinct (map fst d) \<Longrightarrow> distinct (map fst (group_by_hash key ps d))"
  by (induction ps arbitrary: d) (auto simp: keys_dd_append)

lemma bucket_of_group_by_hash:
  "bucket_of (group_by_hash key ps d) h =
     bucket_of d h @ (if h = [] then [] else filter (\<lambda>p. key p = h) ps)"
  by (induction ps arbitrary: d) (auto simp: map_of_dd_append bucket_of_def)

lemma keys_group_by_hash:
  "fst ` set (group_by_hash key ps d) = fst ` set d \<union> {key p |p. p \<in> set ps \<and> key p \<noteq> []}"
proof (induction ps arbitrary: d)
  case Nil
  then show ?case by simp
next
  case (Cons p ps)
  have k: "fst ` set (dd_append d (key p) p) = insert (key p) (fst ` set d)"
    using keys_dd_append [of d "key p" p] 
    by (metis (no_types, lifting) insert_absorb list.set_map set_append list.simps(15) Un_insert_right sup_bot.right_neutral empty_set)
  show ?case using Cons.IH k by auto
qed

lemma mset_group_by_hash:
  "mset (concat (map snd (group_by_hash key ps d))) =
     mset (concat (map snd d)) + mset (filter (\<lambda>p. key p \<noteq> []) ps)"
  by (induction ps arbitrary: d) (auto simp: mset_dd_append)

lemma group_by_hash_mem:
  "(h, vs) \<in> set (group_by_hash key ps []) \<longleftrightarrow>
     h \<noteq> [] \<and> vs \<noteq> [] \<and> vs = filter (\<lambda>p. key p = h) ps"
proof
  let ?d = "group_by_hash key ps []"
  have dist: "distinct (map fst ?d)" by (simp add: distinct_keys_group_by_hash)
  assume mem: "(h, vs) \<in> set ?d"
  then have "map_of ?d h = Some vs" using dist by simp
  then have "bucket_of ?d h = vs" by (simp add: bucket_of_def)
  moreover have "bucket_of ?d h = (if h = [] then [] else filter (\<lambda>p. key p = h) ps)"
    by (simp add: bucket_of_group_by_hash) (simp add: bucket_of_def)
  ultimately have vs: "vs = (if h = [] then [] else filter (\<lambda>p. key p = h) ps)"
    by simp
  from mem have "h \<in> fst ` set ?d" by force
  then obtain p where p: "p \<in> set ps" "key p \<noteq> []" "h = key p"
    by (auto simp: keys_group_by_hash)
  then have "h \<noteq> []" by simp
  moreover have "p \<in> set (filter (\<lambda>p. key p = h) ps)" using p by simp
  then have ne: "filter (\<lambda>p. key p = h) ps \<noteq> []" by (cases "filter (\<lambda>p. key p = h) ps") simp_all
  ultimately have hne: "h \<noteq> []" by simp
  with vs have "vs = filter (\<lambda>p. key p = h) ps" by simp
  with ne hne show "h \<noteq> [] \<and> vs \<noteq> [] \<and> vs = filter (\<lambda>p. key p = h) ps"
    by simp
next
  let ?d = "group_by_hash key ps []"
  have dist: "distinct (map fst ?d)" by (simp add: distinct_keys_group_by_hash)
  assume a: "h \<noteq> [] \<and> vs \<noteq> [] \<and> vs = filter (\<lambda>p. key p = h) ps"
  then have "filter (\<lambda>p. key p = h) ps \<noteq> []" by auto
  then obtain p where "p \<in> set ps" "key p = h"
    by (auto simp: filter_empty_conv)
  then have "h \<in> fst ` set ?d" using a by (auto simp: keys_group_by_hash)
  then obtain ws where ws: "(h, ws) \<in> set ?d" by auto
  then have "map_of ?d h = Some ws" using dist by simp
  then have "bucket_of ?d h = ws" by (simp add: bucket_of_def)
  moreover have "bucket_of ?d h = vs" using a by (simp add: bucket_of_group_by_hash) (simp add: bucket_of_def)
  ultimately have "ws = vs" by simp
  then show "(h, vs) \<in> set ?d" using ws by simp
qed

lemma length_hexdigest: "length (hexdigest (d :: 'a::len word)) = LENGTH('a) div 4"
  by (simp add: hexdigest_def)

lemma hexdigest_md5_nonempty [simp]: "hexdigest (d :: 128 word) \<noteq> []"
  using length_hexdigest [of d] by auto

lemma hexdigest_sha256_nonempty [simp]: "hexdigest (d :: 256 word) \<noteq> []"
  using length_hexdigest [of d] by auto

lemma read_chunks_eq: "0 < n \<Longrightarrow> read_chunks n h rest = h @ rest"
proof (induction n h rest rule: read_chunks.induct)
  case (1 n h rest)
  show ?case
  proof (cases "take n rest = []")
    case True
    with "1.prems" have "rest = []" by simp
    then show ?thesis by (subst read_chunks.simps) simp
  next
    case False
    then have "read_chunks n h rest = read_chunks n (h @ take n rest) (drop n rest)"
      by (subst read_chunks.simps) (simp add: Let_def)
    also have "\<dots> = (h @ take n rest) @ drop n rest"
      using "1.IH" [OF refl False] "1.prems" by simp
    finally show ?thesis by simp
  qed
qed

lemma PH_eq: "PH e p = (case content e p of None \<Rightarrow> [] | Some data \<Rightarrow> hexdigest (md5 e (take 8192 data)))"
  by (simp add: partial_hash_def split: option.splits)

lemma FH_eq: "FH e p = (case content e p of None \<Rightarrow> [] | Some data \<Rightarrow> hexdigest (sha256 e data))"
  by (simp add: full_hash_def read_chunks_eq split: option.splits)

lemma emitted_mem:
  "g \<in> set (emitted e plist) \<longleftrightarrow>
     (\<exists>fh. fh \<noteq> [] \<and> g = filter (\<lambda>p. FH e p = fh) plist \<and> 2 \<le> length g)"
proof -
  have "g \<in> set (emitted e plist) \<longleftrightarrow>
      (\<exists>fh. (fh, g) \<in> set (group_by_hash (FH e) plist []) \<and> 2 \<le> length g)"
    by (force simp: emitted_def)
  also have "\<dots> \<longleftrightarrow> (\<exists>fh. fh \<noteq> [] \<and> g = filter (\<lambda>p. FH e p = fh) plist \<and> 2 \<le> length g)"
    unfolding group_by_hash_mem by auto
  finally show ?thesis .
qed

lemma bucket_groups_mem:
  "g \<in> set (bucket_groups e paths) \<longleftrightarrow>
     (\<exists>ph fh. ph \<noteq> [] \<and> fh \<noteq> [] \<and>
        g = filter (\<lambda>p. FH e p = fh) (filter (\<lambda>p. PH e p = ph) paths) \<and> 2 \<le> length g)"
proof
  assume "g \<in> set (bucket_groups e paths)"
  then obtain ph plist where m: "(ph, plist) \<in> set (group_by_hash (PH e) paths [])"
      and g: "g \<in> set (emitted e plist)"
    by (auto simp: bucket_groups_def split: if_splits)
  from m have "ph \<noteq> []" "plist = filter (\<lambda>p. PH e p = ph) paths"
    by (simp_all add: group_by_hash_mem)
  with g show "\<exists>ph fh. ph \<noteq> [] \<and> fh \<noteq> [] \<and>
        g = filter (\<lambda>p. FH e p = fh) (filter (\<lambda>p. PH e p = ph) paths) \<and> 2 \<le> length g"
    by (auto simp: emitted_mem)
next
  assume "\<exists>ph fh. ph \<noteq> [] \<and> fh \<noteq> [] \<and>
        g = filter (\<lambda>p. FH e p = fh) (filter (\<lambda>p. PH e p = ph) paths) \<and> 2 \<le> length g"
  then obtain ph fh where ph: "ph \<noteq> []" and fh: "fh \<noteq> []"
      and g: "g = filter (\<lambda>p. FH e p = fh) (filter (\<lambda>p. PH e p = ph) paths)"
      and len: "2 \<le> length g"
    by blast
  define plist where "plist = filter (\<lambda>p. PH e p = ph) paths"
  have "length g \<le> length plist" unfolding g plist_def by (rule length_filter_le)
  with len have len2: "2 \<le> length plist" by simp
  then have "plist \<noteq> []" by auto
  with ph have m: "(ph, plist) \<in> set (group_by_hash (PH e) paths [])"
    by (simp add: group_by_hash_mem plist_def)
  have "g \<in> set (emitted e plist)"
    using fh g len by (auto simp: emitted_mem plist_def)
  with m len2 show "g \<in> set (bucket_groups e paths)"
    by (force simp: bucket_groups_def)
qed

lemma find_duplicates_mem:
  "g \<in> set (find_duplicates e sm) \<longleftrightarrow>
     (\<exists>sz paths ph fh. (sz, paths) \<in> set sm \<and> ph \<noteq> [] \<and> fh \<noteq> [] \<and>
        g = filter (\<lambda>p. FH e p = fh) (filter (\<lambda>p. PH e p = ph) paths) \<and> 2 \<le> length g)"
proof
  assume "g \<in> set (find_duplicates e sm)"
  then obtain sz paths where "(sz, paths) \<in> set sm" "g \<in> set (bucket_groups e paths)"
    by (auto simp: find_duplicates_eq)
  then show "\<exists>sz paths ph fh. (sz, paths) \<in> set sm \<and> ph \<noteq> [] \<and> fh \<noteq> [] \<and>
        g = filter (\<lambda>p. FH e p = fh) (filter (\<lambda>p. PH e p = ph) paths) \<and> 2 \<le> length g"
    unfolding bucket_groups_mem by blast
next
  assume "\<exists>sz paths ph fh. (sz, paths) \<in> set sm \<and> ph \<noteq> [] \<and> fh \<noteq> [] \<and>
        g = filter (\<lambda>p. FH e p = fh) (filter (\<lambda>p. PH e p = ph) paths) \<and> 2 \<le> length g"
  then obtain sz paths ph fh where sm: "(sz, paths) \<in> set sm" and ph: "ph \<noteq> []" and fh: "fh \<noteq> []"
      and g: "g = filter (\<lambda>p. FH e p = fh) (filter (\<lambda>p. PH e p = ph) paths)"
      and len: "2 \<le> length g"
    by blast
  have "length g \<le> length (filter (\<lambda>p. PH e p = ph) paths)"
    unfolding g by (rule length_filter_le)
  also have "\<dots> \<le> length paths" by (rule length_filter_le)
  finally have "1 < length paths" using len by simp
  moreover have "g \<in> set (bucket_groups e paths)"
    unfolding bucket_groups_mem using ph fh g len by blast
  ultimately show "g \<in> set (find_duplicates e sm)"
    using sm by (force simp: find_duplicates_eq)
qed

subsection \<open>Soundness of the emitted groups\<close>

text \<open>
  C1. Every group in the list returned by \<open>find_duplicates\<close> has at least two members;
  any two members have the same full-content digest, and that digest is not the failure
  value; all members come from one bucket of the size map, so they have the same size.
  Hence a group whose members' full digests differ is never emitted.
\<close>

theorem find_duplicates_sound:
  assumes "g \<in> set (find_duplicates e size_map)"
  shows "2 \<le> length g \<and>
         (\<forall>p \<in> set g. \<forall>q \<in> set g. FH e p = FH e q) \<and>
         (\<forall>p \<in> set g. FH e p \<noteq> []) \<and>
         (\<exists>sz paths. (sz, paths) \<in> set size_map \<and> set g \<subseteq> set paths)"
proof -
  from assms obtain sz paths ph fh where sm: "(sz, paths) \<in> set size_map"
      and fh: "fh \<noteq> []"
      and g: "g = filter (\<lambda>p. FH e p = fh) (filter (\<lambda>p. PH e p = ph) paths)"
      and len: "2 \<le> length g"
    unfolding find_duplicates_mem by blast
  have all: "\<forall>p \<in> set g. FH e p = fh" unfolding g by simp
  have sub: "set g \<subseteq> set paths" unfolding g by auto
  from all fh have "\<forall>p \<in> set g. FH e p \<noteq> []" by simp
  moreover from all have "\<forall>p \<in> set g. \<forall>q \<in> set g. FH e p = FH e q" by simp
  ultimately show ?thesis using len sm sub by blast
qed

lemma demo_PH [simp]:
  "PH demo_env ''a'' = hexdigest (1 :: 128 word)"
  "PH demo_env ''b'' = hexdigest (1 :: 128 word)"
  "PH demo_env ''cc'' = hexdigest (1 :: 128 word)"
  "PH demo_env ''e1'' = hexdigest (0 :: 128 word)"
  "PH demo_env ''e2'' = hexdigest (0 :: 128 word)"
  "PH demo_env ''u'' = []"
  by (simp_all add: PH_eq demo_env_def)

lemma demo_FH [simp]:
  "FH demo_env ''a'' = hexdigest (1 :: 256 word)"
  "FH demo_env ''b'' = hexdigest (1 :: 256 word)"
  "FH demo_env ''cc'' = hexdigest (1 :: 256 word)"
  "FH demo_env ''e1'' = hexdigest (0 :: 256 word)"
  "FH demo_env ''e2'' = hexdigest (0 :: 256 word)"
  "FH demo_env ''u'' = []"
  by (simp_all add: FH_eq demo_env_def)

lemma demo_run: "find_duplicates demo_env [(1, [''a'', ''b''])] = [[''a'', ''b'']]"
  by (simp add: find_duplicates_def find_duplicates_run_def)

theorem find_duplicates_sound_witness:
  "[''a'', ''b''] \<in> set (find_duplicates demo_env [(1, [''a'', ''b''])]) \<and>
   2 \<le> length [''a'', ''b''] \<and>
   FH demo_env ''a'' = FH demo_env ''b'' \<and> FH demo_env ''a'' \<noteq> []"
proof -
  have h: "[''a'', ''b''] \<in> set (find_duplicates demo_env [(1, [''a'', ''b''])])"
    by (simp add: find_duplicates_def find_duplicates_run_def)
  from find_duplicates_sound [OF h] h show ?thesis by simp
qed

subsection \<open>Completeness of the emitted groups\<close>

lemma two_members: "p \<in> set xs \<Longrightarrow> q \<in> set xs \<Longrightarrow> p \<noteq> q \<Longrightarrow> 2 \<le> length xs"
  by (cases xs; cases "tl xs") auto

text \<open>
  C2. Two different files listed in the same bucket of the size map (the same size), with
  identical content, for both of which the partial and the full fingerprint succeed
  (neither is the empty string), are members of one emitted group.
\<close>

theorem find_duplicates_complete:
  assumes bucket: "(sz, paths) \<in> set size_map"
    and mem: "p \<in> set paths" "q \<in> set paths" "p \<noteq> q"
    and same: "content e p = content e q"
    and ok: "PH e p \<noteq> []" "FH e p \<noteq> []" "PH e q \<noteq> []" "FH e q \<noteq> []"
  shows "\<exists>g \<in> set (find_duplicates e size_map). p \<in> set g \<and> q \<in> set g"
proof -
  define g where "g = filter (\<lambda>x. FH e x = FH e p) (filter (\<lambda>x. PH e x = PH e p) paths)"
  have "PH e q = PH e p" "FH e q = FH e p" using same by (simp_all add: PH_eq FH_eq)
  with mem have pq: "p \<in> set g" "q \<in> set g" by (simp_all add: g_def)
  with mem have "2 \<le> length g" by (blast intro: two_members)
  with bucket ok have "g \<in> set (find_duplicates e size_map)"
    unfolding find_duplicates_mem g_def by blast
  with pq show ?thesis by blast
qed

lemma demo_content [simp]:
  "content demo_env ''a'' = Some [1]"
  "content demo_env ''b'' = Some [1]"
  "content demo_env ''cc'' = Some [1]"
  "content demo_env ''e1'' = Some []"
  "content demo_env ''e2'' = Some []"
  "content demo_env ''u'' = None"
  by (simp_all add: demo_env_def)

theorem find_duplicates_complete_witness:
  "''a'' \<noteq> ''b'' \<and> content demo_env ''a'' = content demo_env ''b'' \<and>
   PH demo_env ''a'' \<noteq> [] \<and> FH demo_env ''a'' \<noteq> [] \<and>
   PH demo_env ''b'' \<noteq> [] \<and> FH demo_env ''b'' \<noteq> [] \<and>
   (\<exists>g \<in> set (find_duplicates demo_env [(1, [''a'', ''b''])]). ''a'' \<in> set g \<and> ''b'' \<in> set g)"
  using find_duplicates_complete [of 1 "[''a'', ''b'']" "[(1, [''a'', ''b''])]" "''a''" "''b''" demo_env]
  by simp

subsection \<open>No path is used more often than the size map lists it\<close>

lemma mset_concat_filter_sub: "mset (concat (filter P xss)) \<subseteq># mset (concat xss)"
  by (induction xss) (auto intro: subset_mset.add_mono subset_mset.order_trans)

lemma mset_concat_map_filter_sub:
  "mset (concat (map f (filter P xs))) \<subseteq># mset (concat (map f xs))"
  by (induction xs) (auto intro: subset_mset.add_mono subset_mset.order_trans)

lemma mset_concat_map_sub:
  "(\<And>x. x \<in> set xs \<Longrightarrow> mset (f x) \<subseteq># mset (g x)) \<Longrightarrow>
   mset (concat (map f xs)) \<subseteq># mset (concat (map g xs))"
  by (induction xs) (auto intro: subset_mset.add_mono)

lemma concat_concat_map: "concat (concat (map f xs)) = concat (map (\<lambda>x. concat (f x)) xs)"
  by (induction xs) simp_all

lemma mset_grouped_sub:
  "mset (concat (map snd (group_by_hash key ps []))) \<subseteq># mset ps"
  by (simp add: mset_group_by_hash)

lemma emitted_sub: "mset (concat (emitted e plist)) \<subseteq># mset plist"
proof -
  have "mset (concat (emitted e plist)) \<subseteq>#
        mset (concat (map snd (group_by_hash (FH e) plist [])))"
    unfolding emitted_def by (rule mset_concat_filter_sub)
  also have "\<dots> \<subseteq># mset plist" by (rule mset_grouped_sub)
  finally show ?thesis .
qed

lemma bucket_groups_sub: "mset (concat (bucket_groups e paths)) \<subseteq># mset paths"
proof -
  let ?d = "group_by_hash (PH e) paths []"
  let ?f = "\<lambda>(ph, plist). if length plist < 2 then [] else emitted e plist"
  have "concat (bucket_groups e paths) = concat (map (\<lambda>x. concat (?f x)) ?d)"
    by (simp add: bucket_groups_def concat_concat_map) 
  also have "mset \<dots> \<subseteq># mset (concat (map snd ?d))"
    by (rule mset_concat_map_sub) (auto simp: emitted_sub)
  also have "\<dots> \<subseteq># mset paths" by (rule mset_grouped_sub)
  finally show ?thesis .
qed

lemma bucket_reads_sub: "mset (bucket_reads e paths) \<subseteq># mset paths"
proof -
  let ?d = "group_by_hash (PH e) paths []"
  have "mset (bucket_reads e paths) \<subseteq># mset (concat (map snd ?d))"
    unfolding bucket_reads_def by (rule mset_concat_map_sub) auto
  also have "\<dots> \<subseteq># mset paths" by (rule mset_grouped_sub)
  finally show ?thesis .
qed

lemma find_duplicates_sub:
  "mset (concat (find_duplicates e sm)) \<subseteq># mset (concat (map snd sm))"
proof -
  let ?c = "filter (\<lambda>(sz, paths). length paths > 1) sm"
  have "concat (find_duplicates e sm) = concat (map (\<lambda>x. concat (bucket_groups e (snd x))) ?c)"
    by (simp add: find_duplicates_eq concat_concat_map case_prod_unfold)
  also have "mset \<dots> \<subseteq># mset (concat (map snd ?c))"
    by (rule mset_concat_map_sub) (simp add: bucket_groups_sub)
  also have "\<dots> \<subseteq># mset (concat (map snd sm))" by (rule mset_concat_map_filter_sub)
  finally show ?thesis .
qed

lemma full_hash_calls_sub:
  "mset (full_hash_calls e sm) \<subseteq># mset (concat (map snd sm))"
proof -
  let ?c = "filter (\<lambda>(sz, paths). length paths > 1) sm"
  have "full_hash_calls e sm = concat (map (\<lambda>x. bucket_reads e (snd x)) ?c)"
    by (simp add: full_hash_calls_eq case_prod_unfold)
  also have "mset \<dots> \<subseteq># mset (concat (map snd ?c))"
    by (rule mset_concat_map_sub) (simp add: bucket_reads_sub)
  also have "\<dots> \<subseteq># mset (concat (map snd sm))" by (rule mset_concat_map_filter_sub)
  finally show ?thesis .
qed

lemma distinct_mset_sub: "mset xs \<subseteq># mset ys \<Longrightarrow> distinct ys \<Longrightarrow> distinct xs"
proof -
  assume sub: "mset xs \<subseteq># mset ys" and d: "distinct ys"
  have "count (mset xs) a \<le> 1" for a
  proof -
    have "count (mset xs) a \<le> count (mset ys) a" using sub by (rule mset_subset_eq_count)
    also have "\<dots> \<le> 1" using d by (simp add: distinct_count_atmost_1)
    finally show ?thesis .
  qed
  then show "distinct xs"
    by (metis count_mset_0_iff distinct_count_atmost_1 le_neq_implies_less less_one)
qed

lemma distinct_concat_nth_disjoint:
  "distinct (concat xss) \<Longrightarrow> i < j \<Longrightarrow> j < length xss \<Longrightarrow> set (xss ! i) \<inter> set (xss ! j) = {}"
proof (induction xss arbitrary: i j)
  case Nil
  then show ?case by simp
next
  case (Cons xs xss)
  from Cons.prems obtain j' where j: "j = Suc j'" "j' < length xss" by (cases j) auto
  show ?case
  proof (cases i)
    case 0
    have "xss ! j' \<in> set xss" using j by simp
    with Cons.prems(1) have "set xs \<inter> set (xss ! j') = {}" by auto
    with 0 j show ?thesis by simp
  next
    case (Suc i')
    with Cons.prems j have "set (xss ! i') \<inter> set (xss ! j') = {}"
      by (intro Cons.IH) auto
    with Suc j show ?thesis by simp
  qed
qed

lemma distinct_paths_one_bucket:
  assumes "distinct (concat (map snd size_map))"
  shows "one_bucket_per_path size_map"
  unfolding one_bucket_per_path_def
proof (intro allI impI)
  fix i j
  assume i: "i < length size_map" and j: "j < length size_map"
    and ne: "set (snd (size_map ! i)) \<inter> set (snd (size_map ! j)) \<noteq> {}"
  show "i = j"
  proof (rule ccontr)
    assume "i \<noteq> j"
    then consider "i < j" | "j < i" by linarith
    then show False
    proof cases
      case 1
      from distinct_concat_nth_disjoint [OF assms 1] i j ne show False by simp
    next
      case 2
      from distinct_concat_nth_disjoint [OF assms 2] i j ne show False by (simp add: Int_commute)
    qed
  qed
qed

lemma find_duplicates_distinct:
  assumes "distinct (concat (map snd size_map))"
  shows "distinct (concat (find_duplicates e size_map)) \<and>
         (\<forall>i j. i < j \<and> j < length (find_duplicates e size_map) \<longrightarrow>
            set (find_duplicates e size_map ! i) \<inter> set (find_duplicates e size_map ! j) = {}) \<and>
         (\<forall>g \<in> set (find_duplicates e size_map). distinct g)"
proof -
  have d: "distinct (concat (find_duplicates e size_map))"
    using find_duplicates_sub assms by (rule distinct_mset_sub)
  moreover from d have "\<forall>g \<in> set (find_duplicates e size_map). distinct g"
    by (simp add: distinct_concat_iff)
  moreover have "\<forall>i j. i < j \<and> j < length (find_duplicates e size_map) \<longrightarrow>
            set (find_duplicates e size_map ! i) \<inter> set (find_duplicates e size_map ! j) = {}"
  proof (intro allI impI)
    fix i j
    assume "i < j \<and> j < length (find_duplicates e size_map)"
    then have "i < j" "j < length (find_duplicates e size_map)" by simp_all
    with d show "set (find_duplicates e size_map ! i) \<inter> set (find_duplicates e size_map ! j) = {}"
      by (rule distinct_concat_nth_disjoint)
  qed
  ultimately show ?thesis by (intro conjI)
qed

lemma count_list_filter_le: "count_list (filter P xs) p \<le> count_list xs p"
  by (induction xs) auto

lemma keyed_disjoint:
  "distinct (map fst d) \<Longrightarrow> (\<forall>(h, vs) \<in> set d. \<forall>p \<in> set vs. key p = h) \<Longrightarrow>
   sorted_wrt (\<lambda>x y. set (snd x) \<inter> set (snd y) = {}) d"
proof (induction d)
  case Nil
  then show ?case by simp
next
  case (Cons x d)
  obtain h vs where x: "x = (h, vs)" by (cases x)
  have "\<forall>y \<in> set d. set vs \<inter> set (snd y) = {}"
  proof
    fix y assume y: "y \<in> set d"
    obtain h' vs' where y': "y = (h', vs')" by (cases y)
    from Cons.prems(1) x y y' have "h' \<noteq> h" by force
    moreover from Cons.prems(2) x have "\<forall>p \<in> set vs. key p = h" by simp
    moreover from Cons.prems(2) y y' have "\<forall>p \<in> set vs'. key p = h'" by auto
    ultimately show "set vs \<inter> set (snd y) = {}" using y' by auto
  qed
  moreover from Cons have "sorted_wrt (\<lambda>x y. set (snd x) \<inter> set (snd y) = {}) d" by simp
  ultimately show ?case using x by simp
qed

lemma grouped_disjoint:
  "sorted_wrt (\<lambda>x y. set (snd x) \<inter> set (snd y) = {}) (group_by_hash key ps [])"
proof (rule keyed_disjoint)
  show "distinct (map fst (group_by_hash key ps []))" by (simp add: distinct_keys_group_by_hash)
  show "\<forall>(h, vs) \<in> set (group_by_hash key ps []). \<forall>p \<in> set vs. key p = h"
    by (auto simp: group_by_hash_mem)
qed

lemma concat_disjoint:
  "(\<And>x. x \<in> set xs \<Longrightarrow> sorted_wrt (\<lambda>g h. set g \<inter> set h = {}) (f x)) \<Longrightarrow>
   sorted_wrt (\<lambda>x y. \<forall>g \<in> set (f x). \<forall>h \<in> set (f y). set g \<inter> set h = {}) xs \<Longrightarrow>
   sorted_wrt (\<lambda>g h. set g \<inter> set h = {}) (concat (map f xs))"
  by (induction xs) (auto simp: sorted_wrt_append)

lemma emitted_disjoint: "sorted_wrt (\<lambda>g h. set g \<inter> set h = {}) (emitted e plist)"
  unfolding emitted_def
  by (intro sorted_wrt_filter) (simp add: sorted_wrt_map grouped_disjoint)

lemma emitted_subset: "g \<in> set (emitted e plist) \<Longrightarrow> set g \<subseteq> set plist"
  by (auto simp: emitted_mem)

lemma bucket_groups_subset: "g \<in> set (bucket_groups e paths) \<Longrightarrow> set g \<subseteq> set paths"
  by (auto simp: bucket_groups_mem)

lemma bucket_groups_disjoint:
  "sorted_wrt (\<lambda>g h. set g \<inter> set h = {}) (bucket_groups e paths)"
  unfolding bucket_groups_def
proof (rule concat_disjoint)
  fix x assume "x \<in> set (group_by_hash (PH e) paths [])"
  show "sorted_wrt (\<lambda>g h. set g \<inter> set h = {})
          (case x of (ph, plist) \<Rightarrow> if length plist < 2 then [] else emitted e plist)"
    by (cases x) (simp add: emitted_disjoint)
next
  show "sorted_wrt (\<lambda>x y.
          \<forall>g \<in> set (case x of (ph, plist) \<Rightarrow> if length plist < 2 then [] else emitted e plist).
          \<forall>h \<in> set (case y of (ph, plist) \<Rightarrow> if length plist < 2 then [] else emitted e plist).
            set g \<inter> set h = {}) (group_by_hash (PH e) paths [])"
  proof (rule sorted_wrt_mono_rel [OF _ grouped_disjoint])
    fix x y :: "string \<times> path list"
    assume d: "set (snd x) \<inter> set (snd y) = {}"
    show "\<forall>g \<in> set (case x of (ph, plist) \<Rightarrow> if length plist < 2 then [] else emitted e plist).
          \<forall>h \<in> set (case y of (ph, plist) \<Rightarrow> if length plist < 2 then [] else emitted e plist).
            set g \<inter> set h = {}"
    proof (intro ballI)
      fix g h
      assume "g \<in> set (case x of (ph, plist) \<Rightarrow> if length plist < 2 then [] else emitted e plist)"
        and "h \<in> set (case y of (ph, plist) \<Rightarrow> if length plist < 2 then [] else emitted e plist)"
      then have "set g \<subseteq> set (snd x)" "set h \<subseteq> set (snd y)"
        by (auto simp: case_prod_unfold split: if_splits dest: emitted_subset)
      with d show "set g \<inter> set h = {}" by blast
    qed
  qed
qed

lemma one_bucket_disjoint:
  assumes "one_bucket_per_path sm"
  shows "sorted_wrt (\<lambda>x y. set (snd x) \<inter> set (snd y) = {}) sm"
  unfolding sorted_wrt_iff_nth_less
proof (intro allI impI)
  fix i j assume ij: "i < j" "j < length sm"
  show "set (snd (sm ! i)) \<inter> set (snd (sm ! j)) = {}"
  proof (rule ccontr)
    assume "set (snd (sm ! i)) \<inter> set (snd (sm ! j)) \<noteq> {}"
    with assms ij have "i = j" unfolding one_bucket_per_path_def by auto
    with ij show False by simp
  qed
qed

lemma find_duplicates_disjoint:
  assumes "one_bucket_per_path sm"
  shows "sorted_wrt (\<lambda>g h. set g \<inter> set h = {}) (find_duplicates e sm)"
  unfolding find_duplicates_eq
proof (rule concat_disjoint)
  fix x :: "int \<times> path list"
  show "sorted_wrt (\<lambda>g h. set g \<inter> set h = {}) (case x of (sz, paths) \<Rightarrow> bucket_groups e paths)"
    by (cases x) (simp add: bucket_groups_disjoint)
next
  let ?c = "filter (\<lambda>(sz, paths). 1 < length paths) sm"
  have c: "sorted_wrt (\<lambda>x y. set (snd x) \<inter> set (snd y) = {}) ?c"
    by (intro sorted_wrt_filter one_bucket_disjoint assms)
  show "sorted_wrt (\<lambda>x y.
          \<forall>g \<in> set (case x of (sz, paths) \<Rightarrow> bucket_groups e paths).
          \<forall>h \<in> set (case y of (sz, paths) \<Rightarrow> bucket_groups e paths). set g \<inter> set h = {}) ?c"
  proof (rule sorted_wrt_mono_rel [OF _ c])
    fix x y :: "int \<times> path list"
    assume d: "set (snd x) \<inter> set (snd y) = {}"
    show "\<forall>g \<in> set (case x of (sz, paths) \<Rightarrow> bucket_groups e paths).
          \<forall>h \<in> set (case y of (sz, paths) \<Rightarrow> bucket_groups e paths). set g \<inter> set h = {}"
    proof (intro ballI)
      fix g h
      assume "g \<in> set (case x of (sz, paths) \<Rightarrow> bucket_groups e paths)"
        and "h \<in> set (case y of (sz, paths) \<Rightarrow> bucket_groups e paths)"
      then have "set g \<subseteq> set (snd x)" "set h \<subseteq> set (snd y)"
        by (auto simp: case_prod_unfold dest: bucket_groups_subset)
      with d show "set g \<inter> set h = {}" by blast
    qed
  qed
qed

text \<open>
  C3, amended. When each file path occurs in at most one bucket of the size map, two
  different groups of the output have no path in common: every path is in at most one
  group. Every group is drawn from one bucket and holds a path no more often than that
  bucket lists it; so a path that no bucket lists twice is at most once in its group.
\<close>

theorem no_double_counting:
  assumes "one_bucket_per_path size_map"
  shows "(\<forall>i j. i < j \<and> j < length (find_duplicates e size_map) \<longrightarrow>
            set (find_duplicates e size_map ! i) \<inter> set (find_duplicates e size_map ! j) = {}) \<and>
         (\<forall>g \<in> set (find_duplicates e size_map).
            \<exists>sz paths. (sz, paths) \<in> set size_map \<and> set g \<subseteq> set paths \<and>
              (\<forall>p. count_list g p \<le> count_list paths p)) \<and>
         (\<forall>g \<in> set (find_duplicates e size_map). \<forall>p.
            (\<forall>sz paths. (sz, paths) \<in> set size_map \<longrightarrow> count_list paths p \<le> 1) \<longrightarrow>
            count_list g p \<le> 1)"
proof -
  have 1: "\<forall>i j. i < j \<and> j < length (find_duplicates e size_map) \<longrightarrow>
            set (find_duplicates e size_map ! i) \<inter> set (find_duplicates e size_map ! j) = {}"
    using find_duplicates_disjoint [OF assms, of e] by (simp add: sorted_wrt_iff_nth_less)
  have 2: "\<forall>g \<in> set (find_duplicates e size_map).
            \<exists>sz paths. (sz, paths) \<in> set size_map \<and> set g \<subseteq> set paths \<and>
              (\<forall>p. count_list g p \<le> count_list paths p)"
  proof
    fix g assume "g \<in> set (find_duplicates e size_map)"
    then obtain sz paths ph fh where sm: "(sz, paths) \<in> set size_map"
        and g: "g = filter (\<lambda>p. FH e p = fh) (filter (\<lambda>p. PH e p = ph) paths)"
      unfolding find_duplicates_mem by blast
    have "count_list g p \<le> count_list paths p" for p
    proof -
      have "count_list g p \<le> count_list (filter (\<lambda>p. PH e p = ph) paths) p"
        unfolding g by (rule count_list_filter_le)
      also have "\<dots> \<le> count_list paths p" by (rule count_list_filter_le)
      finally show ?thesis .
    qed
    moreover have "set g \<subseteq> set paths" unfolding g by auto
    ultimately show "\<exists>sz paths. (sz, paths) \<in> set size_map \<and> set g \<subseteq> set paths \<and>
              (\<forall>p. count_list g p \<le> count_list paths p)"
      using sm by blast
  qed
  have 3: "\<forall>g \<in> set (find_duplicates e size_map). \<forall>p.
            (\<forall>sz paths. (sz, paths) \<in> set size_map \<longrightarrow> count_list paths p \<le> 1) \<longrightarrow>
            count_list g p \<le> 1"
  proof (intro ballI allI impI)
    fix g p
    assume g: "g \<in> set (find_duplicates e size_map)"
      and once: "\<forall>sz paths. (sz, paths) \<in> set size_map \<longrightarrow> count_list paths p \<le> 1"
    from 2 g obtain sz paths where "(sz, paths) \<in> set size_map"
      "count_list g p \<le> count_list paths p" by blast
    with once show "count_list g p \<le> 1" by (meson order_trans)
  qed
  from 1 2 3 show ?thesis by (intro conjI)
qed

theorem no_double_counting_witness:
  "one_bucket_per_path [(1, [''a'', ''b'', ''u'']), (0, [''e1'', ''e2''])] \<and>
   find_duplicates demo_env [(1, [''a'', ''b'', ''u'']), (0, [''e1'', ''e2''])] =
     [[''a'', ''b''], [''e1'', ''e2'']] \<and>
   set (find_duplicates demo_env [(1, [''a'', ''b'', ''u'']), (0, [''e1'', ''e2''])] ! 0) \<inter>
   set (find_duplicates demo_env [(1, [''a'', ''b'', ''u'']), (0, [''e1'', ''e2''])] ! 1) = {}"
proof -
  have "distinct (concat (map snd [(1 :: int, [''a'', ''b'', ''u'']), (0, [''e1'', ''e2''])]))"
    by simp
  then have h: "one_bucket_per_path [(1, [''a'', ''b'', ''u'']), (0, [''e1'', ''e2''])]"
    by (rule distinct_paths_one_bucket)
  have r: "find_duplicates demo_env [(1, [''a'', ''b'', ''u'']), (0, [''e1'', ''e2''])] =
     [[''a'', ''b''], [''e1'', ''e2'']]"
    by (simp add: find_duplicates_def find_duplicates_run_def)
  have l: "(0::nat) < 1 \<and>
     1 < length (find_duplicates demo_env [(1, [''a'', ''b'', ''u'']), (0, [''e1'', ''e2''])])"
    unfolding r by simp
  from no_double_counting [OF h, of demo_env] have
    "\<forall>i j. i < j \<and>
       j < length (find_duplicates demo_env [(1, [''a'', ''b'', ''u'']), (0, [''e1'', ''e2''])]) \<longrightarrow>
       set (find_duplicates demo_env [(1, [''a'', ''b'', ''u'']), (0, [''e1'', ''e2''])] ! i) \<inter>
       set (find_duplicates demo_env [(1, [''a'', ''b'', ''u'']), (0, [''e1'', ''e2''])] ! j) = {}"
    by (rule conjunct1)
  with l have
    "set (find_duplicates demo_env [(1, [''a'', ''b'', ''u'']), (0, [''e1'', ''e2''])] ! 0) \<inter>
     set (find_duplicates demo_env [(1, [''a'', ''b'', ''u'']), (0, [''e1'', ''e2''])] ! 1) = {}"
    by blast
  with h r show ?thesis by (intro conjI)
qed

text \<open>
  C3 as stated also promises that a path is at most once in its group whenever no path
  is in two buckets. The size map with the single bucket \<open>[a, a]\<close> meets that condition,
  and the group \<open>[a, a]\<close> is emitted: the path is twice in its group.
\<close>

theorem no_double_counting_counterexample:
  "one_bucket_per_path [(1, [''a'', ''a''])] \<and>
   find_duplicates demo_env [(1, [''a'', ''a''])] = [[''a'', ''a'']] \<and>
   \<not> distinct (concat (find_duplicates demo_env [(1, [''a'', ''a''])]))"
proof -
  have "one_bucket_per_path [(1, [''a'', ''a''])]"
    by (simp add: one_bucket_per_path_def)
  moreover have r: "find_duplicates demo_env [(1, [''a'', ''a''])] = [[''a'', ''a'']]"
    by (simp add: find_duplicates_def find_duplicates_run_def)
  moreover have "\<not> distinct (concat (find_duplicates demo_env [(1, [''a'', ''a''])]))"
    unfolding r by simp
  ultimately show ?thesis by (intro conjI)
qed

lemma distinct_other_member:
  assumes "distinct xs" "2 \<le> length xs" "p \<in> set xs"
  shows "\<exists>q \<in> set xs. q \<noteq> p"
proof -
  from assms(2) obtain a b rest where xs: "xs = a # b # rest"
    by (cases xs; cases "tl xs") auto
  with assms(1) have "a \<noteq> b" by simp
  then have "a \<noteq> p \<or> b \<noteq> p" by blast
  then show ?thesis
  proof
    assume "a \<noteq> p"
    with xs show ?thesis by (intro bexI [of _ a]) simp_all
  next
    assume "b \<noteq> p"
    with xs show ?thesis by (intro bexI [of _ b]) simp_all
  qed
qed

lemma bucket_reads_mem:
  "p \<in> set (bucket_reads e paths) \<longleftrightarrow>
     p \<in> set paths \<and> PH e p \<noteq> [] \<and> 2 \<le> length (filter (\<lambda>q. PH e q = PH e p) paths)"
proof
  assume "p \<in> set (bucket_reads e paths)"
  then obtain ph plist where m: "(ph, plist) \<in> set (group_by_hash (PH e) paths [])"
      and len: "2 \<le> length plist" and p: "p \<in> set plist"
    by (auto simp: bucket_reads_def split: if_splits)
  from m have "ph \<noteq> []" and pl: "plist = filter (\<lambda>q. PH e q = ph) paths"
    by (simp_all add: group_by_hash_mem)
  moreover from p pl have "p \<in> set paths" "PH e p = ph" by simp_all
  ultimately show "p \<in> set paths \<and> PH e p \<noteq> [] \<and> 2 \<le> length (filter (\<lambda>q. PH e q = PH e p) paths)"
    using len by simp
next
  assume a: "p \<in> set paths \<and> PH e p \<noteq> [] \<and> 2 \<le> length (filter (\<lambda>q. PH e q = PH e p) paths)"
  define plist where "plist = filter (\<lambda>q. PH e q = PH e p) paths"
  from a have "plist \<noteq> []" by (auto simp: plist_def)
  with a have "(PH e p, plist) \<in> set (group_by_hash (PH e) paths [])"
    by (simp add: group_by_hash_mem plist_def)
  moreover have "p \<in> set plist" using a by (simp add: plist_def)
  moreover have "\<not> length plist < 2" using a by (simp add: plist_def)
  ultimately show "p \<in> set (bucket_reads e paths)"
    by (force simp: bucket_reads_def)
qed

text \<open>
  C4, amended. When every path occurs at most once in the whole size map, \<open>full_hash\<close>
  is called at most once on each path, and only on a path whose partial fingerprint is
  not the failure value and is shared with another path of the same bucket.
\<close>

theorem full_hash_only_for_candidates:
  assumes "distinct (concat (map snd size_map))"
  shows "distinct (full_hash_calls e size_map) \<and>
         (\<forall>p \<in> set (full_hash_calls e size_map).
            \<exists>sz paths. (sz, paths) \<in> set size_map \<and> p \<in> set paths \<and> PH e p \<noteq> [] \<and>
              (\<exists>q \<in> set paths. q \<noteq> p \<and> PH e q = PH e p))"
proof (intro conjI ballI)
  show "distinct (full_hash_calls e size_map)"
    using full_hash_calls_sub assms by (rule distinct_mset_sub)
next
  fix p
  assume "p \<in> set (full_hash_calls e size_map)"
  then obtain sz paths where sm: "(sz, paths) \<in> set size_map"
      and p: "p \<in> set (bucket_reads e paths)"
    by (auto simp: full_hash_calls_eq)
  from sm have "paths \<in> set (map snd size_map)" by force
  with assms have "distinct paths" by (simp add: distinct_concat_iff)
  then have d: "distinct (filter (\<lambda>q. PH e q = PH e p) paths)" by simp
  from p have pp: "p \<in> set paths" "PH e p \<noteq> []"
      and len: "2 \<le> length (filter (\<lambda>q. PH e q = PH e p) paths)"
    by (simp_all add: bucket_reads_mem)
  from pp have "p \<in> set (filter (\<lambda>q. PH e q = PH e p) paths)" by simp
  from distinct_other_member [OF d len this]
  obtain q where "q \<in> set paths" "q \<noteq> p" "PH e q = PH e p" by auto
  with sm pp show "\<exists>sz paths. (sz, paths) \<in> set size_map \<and> p \<in> set paths \<and> PH e p \<noteq> [] \<and>
              (\<exists>q \<in> set paths. q \<noteq> p \<and> PH e q = PH e p)"
    by blast
qed

theorem full_hash_only_for_candidates_witness:
  "distinct (concat (map snd [(1 :: int, [''a'', ''b'', ''u''])])) \<and>
   full_hash_calls demo_env [(1, [''a'', ''b'', ''u''])] = [''a'', ''b''] \<and>
   distinct (full_hash_calls demo_env [(1, [''a'', ''b'', ''u''])])"
proof -
  have h: "distinct (concat (map snd [(1 :: int, [''a'', ''b'', ''u''])]))" by simp
  have r: "full_hash_calls demo_env [(1, [''a'', ''b'', ''u''])] = [''a'', ''b'']"
    by (simp add: full_hash_calls_def find_duplicates_run_def)
  from full_hash_only_for_candidates [OF h, of demo_env] have
    "distinct (full_hash_calls demo_env [(1, [''a'', ''b'', ''u''])])"
    by (rule conjunct1)
  with h r show ?thesis by (intro conjI)
qed

text \<open>
  C4 as stated has no condition on the size map. For the bucket \<open>[a, a]\<close> the full
  fingerprint of \<open>a\<close> is computed twice.
\<close>

theorem full_hash_only_for_candidates_counterexample:
  "full_hash_calls demo_env [(1, [''a'', ''a''])] = [''a'', ''a''] \<and>
   \<not> distinct (full_hash_calls demo_env [(1, [''a'', ''a''])])"
proof -
  have r: "full_hash_calls demo_env [(1, [''a'', ''a''])] = [''a'', ''a'']"
    by (simp add: full_hash_calls_def find_duplicates_run_def)
  moreover have "\<not> distinct (full_hash_calls demo_env [(1, [''a'', ''a''])])"
    unfolding r by simp
  ultimately show ?thesis by (intro conjI)
qed

subsection \<open>The fingerprints and their failure value\<close>

lemma nibble_less: "unat (w AND (15 :: 'a::len word)) < 16"
proof -
  have "w AND 15 \<le> 15" by (rule word_and_le1)
  then have "unat (w AND 15) \<le> unat (15 :: 'a word)" by (simp only: word_le_nat_alt)
  also have "\<dots> \<le> 15" by (simp only: unat_numeral mod_less_eq_dividend)
  finally show ?thesis by simp
qed

lemma hexchar_mem: "n < 16 \<Longrightarrow> hexchar n \<in> set ''0123456789abcdef''"
  unfolding hexchar_def by (rule nth_mem) simp

lemma hexdigest_digits: "set (hexdigest d) \<subseteq> set ''0123456789abcdef''"
proof
  fix c
  assume "c \<in> set (hexdigest d)"
  then obtain i where "c = hexchar (unat (drop_bit (4 * i) d AND 15))"
    unfolding hexdigest_def by auto
  then show "c \<in> set ''0123456789abcdef''"
    using hexchar_mem [OF nibble_less] by simp
qed

lemma partial_hash_cases:
  "partial_hash e p n =
     (case content e p of None \<Rightarrow> [] | Some data \<Rightarrow> hexdigest (md5 e (take n data)))"
  by (simp add: partial_hash_def split: option.splits)

lemma read_chunks_Nil: "read_chunks n h [] = h"
  by (subst read_chunks.simps) simp

lemma empty_files_group:
  assumes "content e p = Some []" "content e q = Some []" "p \<noteq> q"
  shows "find_duplicates e [(0, [p, q])] = [[p, q]]"
  using assms by (simp add: find_duplicates_def find_duplicates_run_def PH_eq FH_eq)

text \<open>
  C10. \<open>partial_hash\<close> and \<open>full_hash\<close> return the empty string exactly when the file
  cannot be read. On success the result is a string of 32 (MD5) or 64 (SHA-256)
  hexadecimal digits, so it is not empty. A readable file of zero bytes gives the digest
  of the empty byte string, not the failure value, and two different readable empty
  files of one bucket are emitted as a group.
\<close>

theorem hash_failure_is_empty_string:
  "(partial_hash e p n = [] \<longleftrightarrow> content e p = None) \<and>
   (full_hash e p n = [] \<longleftrightarrow> content e p = None) \<and>
   (content e p \<noteq> None \<longrightarrow>
      length (partial_hash e p n) = 32 \<and> length (full_hash e p n) = 64 \<and>
      set (partial_hash e p n) \<subseteq> set ''0123456789abcdef'' \<and>
      set (full_hash e p n) \<subseteq> set ''0123456789abcdef'') \<and>
   (content e p = Some [] \<longrightarrow>
      partial_hash e p n = hexdigest (md5 e []) \<and> full_hash e p n = hexdigest (sha256 e []) \<and>
      partial_hash e p n \<noteq> [] \<and> full_hash e p n \<noteq> []) \<and>
   (content e p = Some [] \<and> content e q = Some [] \<and> p \<noteq> q \<longrightarrow>
      find_duplicates e [(0, [p, q])] = [[p, q]])"
proof (intro conjI impI)
  show "partial_hash e p n = [] \<longleftrightarrow> content e p = None"
    by (simp add: partial_hash_cases split: option.splits)
  show "full_hash e p n = [] \<longleftrightarrow> content e p = None"
    by (simp add: full_hash_def split: option.splits)
next
  assume "content e p \<noteq> None"
  then obtain data where d: "content e p = Some data" by auto
  show "length (partial_hash e p n) = 32" using d by (simp add: partial_hash_cases length_hexdigest)
  show "length (full_hash e p n) = 64" using d by (simp add: full_hash_def length_hexdigest)
  show "set (partial_hash e p n) \<subseteq> set ''0123456789abcdef''"
    using d hexdigest_digits [of "md5 e (take n data)"] by (simp only: partial_hash_cases option.case)
  show "set (full_hash e p n) \<subseteq> set ''0123456789abcdef''"
    using d hexdigest_digits [of "sha256 e (read_chunks n [] data)"]
    by (simp only: full_hash_def option.case)
next
  assume d: "content e p = Some []"
  show "partial_hash e p n = hexdigest (md5 e [])" using d by (simp add: partial_hash_cases)
  show "full_hash e p n = hexdigest (sha256 e [])" using d by (simp add: full_hash_def read_chunks_Nil)
  show "partial_hash e p n \<noteq> []" using d by (simp add: partial_hash_cases)
  show "full_hash e p n \<noteq> []" using d by (simp add: full_hash_def)
next
  assume "content e p = Some [] \<and> content e q = Some [] \<and> p \<noteq> q"
  then show "find_duplicates e [(0, [p, q])] = [[p, q]]"
    by (simp add: empty_files_group)
qed

theorem hash_failure_is_empty_string_witness:
  "content demo_env ''e1'' = Some [] \<and> content demo_env ''e2'' = Some [] \<and>
   content demo_env ''u'' = None \<and>
   partial_hash demo_env ''u'' 8192 = [] \<and> full_hash demo_env ''u'' 65536 = [] \<and>
   length (partial_hash demo_env ''e1'' 8192) = 32 \<and>
   length (full_hash demo_env ''e1'' 65536) = 64 \<and>
   find_duplicates demo_env [(0, [''e1'', ''e2''])] = [[''e1'', ''e2'']]"
proof -
  have c: "content demo_env ''e1'' = Some []" "content demo_env ''e2'' = Some []"
    "content demo_env ''u'' = None" "''e1'' \<noteq> ''e2''" by simp_all
  have c': "content demo_env ''e1'' \<noteq> None" by simp
  from hash_failure_is_empty_string [of demo_env "''u''" 8192] c(3)
  have 1: "partial_hash demo_env ''u'' 8192 = []" by blast
  from hash_failure_is_empty_string [of demo_env "''u''" 65536] c(3)
  have 2: "full_hash demo_env ''u'' 65536 = []" by blast
  from hash_failure_is_empty_string [of demo_env "''e1''" 8192] c'
  have 3: "length (partial_hash demo_env ''e1'' 8192) = 32" by blast
  from hash_failure_is_empty_string [of demo_env "''e1''" 65536] c'
  have 4: "length (full_hash demo_env ''e1'' 65536) = 64" by blast
  from hash_failure_is_empty_string [of demo_env "''e1''" 8192 "''e2''"] c
  have 5: "find_duplicates demo_env [(0, [''e1'', ''e2''])] = [[''e1'', ''e2'']]" by blast
  from c 1 2 3 4 5 show ?thesis by (intro conjI)
qed

subsection \<open>One unreadable file in a set of duplicates\<close>

lemma length_filter_neq:
  "distinct xs \<Longrightarrow> u \<in> set xs \<Longrightarrow> length (filter (\<lambda>p. p \<noteq> u) xs) = length xs - 1"
proof (induction xs)
  case Nil
  then show ?case by simp
next
  case (Cons x xs)
  show ?case
  proof (cases "x = u")
    case True
    with Cons.prems have "u \<notin> set xs" by simp
    then have "filter (\<lambda>p. p \<noteq> u) xs = xs" by (auto simp: filter_id_conv)
    with True show ?thesis by simp
  next
    case False
    with Cons.prems have u: "u \<in> set xs" and d: "distinct xs" by simp_all
    from u have "0 < length xs" by (cases xs) auto
    with Cons.IH [OF d u] False show ?thesis by simp
  qed
qed

text \<open>
  C6. A bucket lists \<open>N\<close> different files; one of them, \<open>u\<close>, cannot be read (its
  partial fingerprint is the failure value) and all others have the same content. When
  \<open>N - 1 \<ge> 2\<close>, the other \<open>N - 1\<close> files, in their order, are an emitted group, and
  \<open>u\<close> is in no group. The function is total: one unreadable file does not stop the run.
\<close>

theorem unreadable_file_isolated:
  assumes bucket: "(sz, paths) \<in> set size_map"
    and dist: "distinct paths"
    and u: "u \<in> set paths" "content e u = None"
    and same: "\<forall>p \<in> set paths. p \<noteq> u \<longrightarrow> content e p = Some data"
    and n: "2 \<le> length paths - 1"
  shows "filter (\<lambda>p. p \<noteq> u) paths \<in> set (find_duplicates e size_map) \<and>
         length (filter (\<lambda>p. p \<noteq> u) paths) = length paths - 1 \<and>
         (\<forall>g \<in> set (find_duplicates e size_map). u \<notin> set g)"
proof (intro conjI ballI)
  define ph where "ph = hexdigest (md5 e (take 8192 data))"
  define fh where "fh = hexdigest (sha256 e data)"
  have ne: "ph \<noteq> []" "fh \<noteq> []" by (simp_all add: ph_def fh_def)
  have pu: "PH e u = []" "FH e u = []" using u(2) by (simp_all add: PH_eq FH_eq)
  have P: "PH e p = ph \<longleftrightarrow> p \<noteq> u" if "p \<in> set paths" for p
    using that same pu ne by (auto simp: PH_eq ph_def)
  have F: "FH e p = fh \<longleftrightarrow> p \<noteq> u" if "p \<in> set paths" for p
    using that same pu ne by (auto simp: FH_eq fh_def)
  have 1: "filter (\<lambda>p. PH e p = ph) paths = filter (\<lambda>p. p \<noteq> u) paths"
    by (rule filter_cong [OF refl]) (rule P)
  have 2: "filter (\<lambda>p. FH e p = fh) (filter (\<lambda>p. p \<noteq> u) paths) = filter (\<lambda>p. p \<noteq> u) paths"
  proof -
    have "\<forall>p \<in> set (filter (\<lambda>p. p \<noteq> u) paths). FH e p = fh" using F by simp
    then show ?thesis by (simp only: filter_id_conv)
  qed
  show len: "length (filter (\<lambda>p. p \<noteq> u) paths) = length paths - 1"
    using dist u(1) by (rule length_filter_neq)
  have "filter (\<lambda>p. p \<noteq> u) paths =
        filter (\<lambda>p. FH e p = fh) (filter (\<lambda>p. PH e p = ph) paths)"
    by (simp only: 1 2)
  moreover have "2 \<le> length (filter (\<lambda>p. p \<noteq> u) paths)" using len n by simp
  ultimately show "filter (\<lambda>p. p \<noteq> u) paths \<in> set (find_duplicates e size_map)"
    unfolding find_duplicates_mem using bucket ne by blast
next
  fix g
  assume "g \<in> set (find_duplicates e size_map)"
  then obtain sz' paths' ph' fh' where "fh' \<noteq> []"
      and g: "g = filter (\<lambda>p. FH e p = fh') (filter (\<lambda>p. PH e p = ph') paths')"
    unfolding find_duplicates_mem by blast
  moreover have "FH e u = []" using u(2) by (simp add: FH_eq)
  ultimately show "u \<notin> set g" by auto
qed

theorem unreadable_file_isolated_witness:
  "distinct [''a'', ''u'', ''b'', ''cc''] \<and> content demo_env ''u'' = None \<and>
   find_duplicates demo_env [(1, [''a'', ''u'', ''b'', ''cc''])] = [[''a'', ''b'', ''cc'']] \<and>
   filter (\<lambda>p. p \<noteq> ''u'') [''a'', ''u'', ''b'', ''cc''] \<in>
     set (find_duplicates demo_env [(1, [''a'', ''u'', ''b'', ''cc''])])"
proof -
  have d: "distinct [''a'', ''u'', ''b'', ''cc'']" by simp
  have c: "content demo_env ''u'' = None" by simp
  have r: "find_duplicates demo_env [(1, [''a'', ''u'', ''b'', ''cc''])] = [[''a'', ''b'', ''cc'']]"
    by (simp add: find_duplicates_def find_duplicates_run_def)
  have s: "\<forall>p \<in> set [''a'', ''u'', ''b'', ''cc'']. p \<noteq> ''u'' \<longrightarrow> content demo_env p = Some [1]"
    by simp
  have "filter (\<lambda>p. p \<noteq> ''u'') [''a'', ''u'', ''b'', ''cc''] \<in>
     set (find_duplicates demo_env [(1, [''a'', ''u'', ''b'', ''cc''])])"
    using unreadable_file_isolated [of 1 "[''a'', ''u'', ''b'', ''cc'']"
      "[(1, [''a'', ''u'', ''b'', ''cc''])]" "''u''" demo_env "[1]"] d c s
    by simp
  with d c r show ?thesis by (intro conjI)
qed

subsection \<open>The keeper is the least member\<close>

lemma keeper_key_inj: "inj_on (\<lambda>p :: path. (length p, p)) A"
  by (rule inj_onI) simp

lemma pick_keeper_sorted:
  "pick_keeper grp =
     (case sort_key (\<lambda>p. (length p, p)) grp of
        [] \<Rightarrow> Inl IndexError
      | keeper # movers \<Rightarrow> Inr (keeper, movers))"
  by (simp add: pick_keeper_def)

lemma pick_keeper_permutation:
  assumes "mset grp' = mset grp"
  shows "pick_keeper grp' = pick_keeper grp"
proof -
  let ?k = "\<lambda>p :: path. (length p, p)"
  have m: "mset grp' = mset (sort_key ?k grp)" using assms by simp
  have s: "sorted (map ?k (sort_key ?k grp))" by (rule sorted_sort_key)
  have "sort_key ?k grp' = sort_key ?k grp"
    by (rule sort_key_inj_key_eq [OF m keeper_key_inj s])
  then show ?thesis by (simp only: pick_keeper_sorted)
qed

text \<open>
  C5. For a non-empty group of distinct paths, \<open>pick_keeper\<close> returns a keeper that is a
  member of the group and is least under the key (length of the path, then the path in
  lexicographic order), and the movers are exactly the other members. Every permutation
  of the group gives the same keeper (and the same movers).
\<close>

theorem pick_keeper_minimal:
  assumes "grp \<noteq> []" "distinct grp"
  shows "\<exists>keeper movers. pick_keeper grp = Inr (keeper, movers) \<and>
           keeper \<in> set grp \<and>
           (\<forall>p \<in> set grp. (length keeper, keeper) \<le> (length p, p)) \<and>
           set movers = set grp - {keeper} \<and> distinct movers \<and>
           (\<forall>grp'. mset grp' = mset grp \<longrightarrow> pick_keeper grp' = Inr (keeper, movers))"
proof -
  let ?k = "\<lambda>p :: path. (length p, p)"
  let ?s = "sort_key ?k grp"
  have "?s \<noteq> []"
  proof
    assume e: "?s = []"
    have "set grp = set ?s" by simp
    also have "\<dots> = {}" by (simp only: e list.set)
    finally show False using assms(1) by simp
  qed
  then obtain keeper movers where s: "?s = keeper # movers" by (cases ?s) auto
  then have pk: "pick_keeper grp = Inr (keeper, movers)" by (simp add: pick_keeper_sorted)
  have set_s: "set grp = insert keeper (set movers)"
    using set_sort [of ?k grp] s by simp
  have "distinct ?s" using assms(2) by simp
  with s have d: "keeper \<notin> set movers" "distinct movers" by simp_all
  have "sorted (map ?k ?s)" by (rule sorted_sort_key)
  with s have le: "\<forall>p \<in> set movers. ?k keeper \<le> ?k p" by simp
  have min: "\<forall>p \<in> set grp. (length keeper, keeper) \<le> (length p, p)"
    using le set_s by simp
  have perm: "\<forall>grp'. mset grp' = mset grp \<longrightarrow> pick_keeper grp' = Inr (keeper, movers)"
  proof (intro allI impI)
    fix grp'
    assume "mset grp' = mset grp"
    then have "pick_keeper grp' = pick_keeper grp" by (rule pick_keeper_permutation)
    with pk show "pick_keeper grp' = Inr (keeper, movers)" by simp
  qed
  have mem: "keeper \<in> set grp" using set_s by simp
  have rest: "set movers = set grp - {keeper}" using set_s d by auto
  show ?thesis
  proof (intro exI conjI)
    show "pick_keeper grp = Inr (keeper, movers)" by (fact pk)
    show "keeper \<in> set grp" by (fact mem)
    show "\<forall>p \<in> set grp. (length keeper, keeper) \<le> (length p, p)" by (fact min)
    show "set movers = set grp - {keeper}" by (fact rest)
    show "distinct movers" by (fact d(2))
    show "\<forall>grp'. mset grp' = mset grp \<longrightarrow> pick_keeper grp' = Inr (keeper, movers)"
      by (fact perm)
  qed
qed

theorem pick_keeper_minimal_witness:
  "[''dir/b.txt'', ''a.txt'', ''dir/sub/c.txt''] \<noteq> [] \<and>
   distinct [''dir/b.txt'', ''a.txt'', ''dir/sub/c.txt''] \<and>
   pick_keeper [''dir/b.txt'', ''a.txt'', ''dir/sub/c.txt''] =
     Inr (''a.txt'', [''dir/b.txt'', ''dir/sub/c.txt'']) \<and>
   pick_keeper [''dir/sub/c.txt'', ''dir/b.txt'', ''a.txt''] =
     Inr (''a.txt'', [''dir/b.txt'', ''dir/sub/c.txt''])"
proof -
  have h: "[''dir/b.txt'', ''a.txt'', ''dir/sub/c.txt''] \<noteq> []"
    "distinct [''dir/b.txt'', ''a.txt'', ''dir/sub/c.txt'']" by simp_all
  have r: "pick_keeper [''dir/b.txt'', ''a.txt'', ''dir/sub/c.txt''] =
     Inr (''a.txt'', [''dir/b.txt'', ''dir/sub/c.txt''])"
    by (simp add: pick_keeper_def)
  have m: "mset [''dir/sub/c.txt'', ''dir/b.txt'', ''a.txt''] =
     mset [''dir/b.txt'', ''a.txt'', ''dir/sub/c.txt'']" by simp
  from pick_keeper_minimal [OF h] obtain keeper movers where
    "pick_keeper [''dir/b.txt'', ''a.txt'', ''dir/sub/c.txt''] = Inr (keeper, movers)"
    "\<forall>grp'. mset grp' = mset [''dir/b.txt'', ''a.txt'', ''dir/sub/c.txt''] \<longrightarrow>
       pick_keeper grp' = Inr (keeper, movers)"
    by blast
  with m r have "pick_keeper [''dir/sub/c.txt'', ''dir/b.txt'', ''a.txt''] =
     Inr (''a.txt'', [''dir/b.txt'', ''dir/sub/c.txt''])"
    by metis
  with h r show ?thesis by (intro conjI)
qed

text \<open>Paths of the same length: the lexicographic order decides.\<close>

lemma pick_keeper_tie:
  "pick_keeper [''b.txt'', ''a.txt'', ''B.txt''] = Inr (''B.txt'', [''a.txt'', ''b.txt''])"
  by (simp add: pick_keeper_def)

subsection \<open>The rows of the plan, group by group\<close>

lemma mover_step_Inl:
  "mover_step os dest_root dry_run gid file_size src st = Inl e \<longleftrightarrow>
     os_path_relpath os src C_ROOT = Inl e"
  by (auto simp: mover_step_def Let_def split: sum.splits prod.splits option.splits)


























subsection \<open>The destination of a mover\<close>



subsection \<open>Failures while relocating\<close>

text \<open>
  An \<^verbatim>\<open>OSError\<close> of \<^verbatim>\<open>makedirs\<close> or \<^verbatim>\<open>shutil.move\<close> never ends the run: when the
  report can be opened, no group is empty and \<^verbatim>\<open>relpath\<close> succeeds on every path, the
  run returns, whatever the moves do.
\<close>

lemma pick_keeper_nonempty:
  assumes "grp \<noteq> []"
  shows "\<exists>keeper movers. pick_keeper grp = Inr (keeper, movers) \<and> set movers \<subseteq> set grp"
proof -
  let ?s = "sort_key (\<lambda>p. (length p, p)) grp"
  have "?s \<noteq> []"
  proof
    assume e: "?s = []"
    have "set grp = set ?s" by simp
    also have "\<dots> = {}" by (simp only: e list.set)
    finally show False using assms by simp
  qed
  then obtain keeper movers where s: "?s = keeper # movers" by (cases ?s) auto
  then have "pick_keeper grp = Inr (keeper, movers)" by (simp add: pick_keeper_sorted)
  moreover have "set movers \<subseteq> set grp" using set_sort [of "\<lambda>p. (length p, p)" grp] s by auto
  ultimately show ?thesis by blast
qed

lemma movers_loop_returns:
  "\<forall>p \<in> set movers. \<exists>rel. os_path_relpath os p C_ROOT = Inr rel \<Longrightarrow>
   \<exists>st'. movers_loop os d dry gid fsz movers st = (None, st')"
proof (induction movers arbitrary: st)
  case Nil
  then show ?case by simp
next
  case (Cons src movers)
  from Cons.prems obtain rel where "os_path_relpath os src C_ROOT = Inr rel" by auto
  then have "\<forall>e. mover_step os d dry gid fsz src st \<noteq> Inl e" by (simp add: mover_step_Inl)
  then obtain st1 where "mover_step os d dry gid fsz src st = Inr st1"
    by (cases "mover_step os d dry gid fsz src st") auto
  moreover from Cons.prems have "\<forall>p \<in> set movers. \<exists>rel. os_path_relpath os p C_ROOT = Inr rel"
    by simp
  from Cons.IH [OF this] obtain st' where
    "movers_loop os d dry gid fsz movers st1 = (None, st')" by blast
  ultimately show ?case by simp
qed

lemma groups_loop_returns:
  "\<forall>grp \<in> set groups. grp \<noteq> [] \<and> (\<forall>p \<in> set grp. \<exists>rel. os_path_relpath os p C_ROOT = Inr rel) \<Longrightarrow>
   \<exists>st'. groups_loop os d dry gid groups st = (None, st')"
proof (induction groups arbitrary: gid st)
  case Nil
  then show ?case by simp
next
  case (Cons grp groups)
  from Cons.prems have ne: "grp \<noteq> []"
    and rel: "\<forall>p \<in> set grp. \<exists>rel. os_path_relpath os p C_ROOT = Inr rel"
    and rest: "\<forall>grp \<in> set groups. grp \<noteq> [] \<and>
        (\<forall>p \<in> set grp. \<exists>rel. os_path_relpath os p C_ROOT = Inr rel)"
    by simp_all
  from pick_keeper_nonempty [OF ne] obtain keeper movers where
    pk: "pick_keeper grp = Inr (keeper, movers)" and sub: "set movers \<subseteq> set grp" by blast
  show ?case
  proof (cases "os_path_getsize os (fs st) keeper")
    case (Inl msg)
    from Cons.IH [OF rest] obtain st' where
      "groups_loop os d dry (Suc gid) groups st = (None, st')" by blast
    with pk Inl show ?thesis by simp
  next
    case (Inr file_size)
    let ?st0 = "writerow st \<lparr>row_group = gid, row_action = KEEP, original_path = keeper,
                          destination = [], size_bytes = file_size\<rparr>"
    from rel sub have "\<forall>p \<in> set movers. \<exists>rel. os_path_relpath os p C_ROOT = Inr rel" by blast
    from movers_loop_returns [OF this] obtain st1 where
      ml: "movers_loop os d dry gid file_size movers ?st0 = (None, st1)" by blast
    from Cons.IH [OF rest] obtain st' where
      "groups_loop os d dry (Suc gid) groups st1 = (None, st')" by blast
    with pk Inr ml show ?thesis by simp
  qed
qed

lemma move_failures_absorbed:
  assumes "os_makedirs os s dest_root = (None, s1)"
    and "open_w os s1 (report_path_of (now_strftime os s1)) = (None, s2)"
    and "\<forall>grp \<in> set groups. grp \<noteq> [] \<and>
           (\<forall>p \<in> set grp. \<exists>rel. os_path_relpath os p C_ROOT = Inr rel)"
  shows "\<exists>st. move_duplicates os s groups dest_root dry_run =
           (Inr (report_path_of (now_strftime os s1)), st)"
proof -
  from groups_loop_returns [OF assms(3)] obtain st where
    "groups_loop os dest_root dry_run 1 groups
       \<lparr>fs = s2, header = report_header, rows = [], moved = 0, freed_bytes = 0,
        planned = []\<rparr> = (None, st)"
    by blast
  with assms(1,2) show ?thesis by (simp add: move_duplicates_def)
qed

text \<open>
  C8. The claim: no failure on one file unwinds the run. The duplicates were found on
  drive \<^verbatim>\<open>E:\<close>; \<^verbatim>\<open>relpath\<close> against \<^verbatim>\<open>"C:\\"\<close> raises \<^verbatim>\<open>ValueError\<close> on the first
  mover, outside the \<^verbatim>\<open>try\<close> block. The run ends with that exception after the first
  \<^verbatim>\<open>KEEP\<close> row: no row for the movers, and the second group is never reached.
\<close>

theorem relpath_failure_unwinds_run:
  "move_duplicates demo_os
     [''E:'' @ [CHR 0x5C] @ ''a.txt'', ''E:'' @ [CHR 0x5C] @ ''copy'' @ [CHR 0x5C] @ ''a.txt'',
      ''E:'' @ [CHR 0x5C] @ ''old'' @ [CHR 0x5C] @ ''a.txt'', ''E:'' @ [CHR 0x5C] @ ''b.txt'',
      ''E:'' @ [CHR 0x5C] @ ''bb.txt'']
     [[''E:'' @ [CHR 0x5C] @ ''a.txt'', ''E:'' @ [CHR 0x5C] @ ''copy'' @ [CHR 0x5C] @ ''a.txt'',
       ''E:'' @ [CHR 0x5C] @ ''old'' @ [CHR 0x5C] @ ''a.txt''],
      [''E:'' @ [CHR 0x5C] @ ''b.txt'', ''E:'' @ [CHR 0x5C] @ ''bb.txt'']]
     (''L:'' @ [CHR 0x5C] @ ''staging'') False =
     (Inl ValueError,
      \<lparr>fs = [''E:'' @ [CHR 0x5C] @ ''a.txt'', ''E:'' @ [CHR 0x5C] @ ''copy'' @ [CHR 0x5C] @ ''a.txt'',
             ''E:'' @ [CHR 0x5C] @ ''old'' @ [CHR 0x5C] @ ''a.txt'', ''E:'' @ [CHR 0x5C] @ ''b.txt'',
             ''E:'' @ [CHR 0x5C] @ ''bb.txt''],
       header = report_header,
       rows = [keep_row 1 (''E:'' @ [CHR 0x5C] @ ''a.txt'') 1],
       moved = 0, freed_bytes = 0, planned = []\<rparr>)"
  by (simp add: move_duplicates_def demo_os_def pick_keeper_def mover_step_def
        win_relpath_def lower_ascii_def drive_def C_ROOT_def writerow_def keep_row_def Let_def)

end
